theory Spec2Isabelle
  imports Main "HOL-Library.Sublist"
begin

section \<open>Python values: errors, characters, strings\<close>

text \<open>
  The script \<^verbatim>\<open>scripts/getPVAliases.py\<close> works on Python \<^verbatim>\<open>str\<close> values. A string is
  modelled as a \<^typ>\<open>char list\<close> whose characters are the code points below 256; the
  character classes below are those of Python 3 on that range (\<^verbatim>\<open>str.isspace\<close>, and
  \<^verbatim>\<open>\s\<close>, \<^verbatim>\<open>\w\<close>, \<^verbatim>\<open>\d\<close> of the module \<^verbatim>\<open>re\<close> on \<^verbatim>\<open>str\<close> patterns). Code points from 256 on
  are outside the model. An exception is a value of \<open>py_error\<close>; \<open>Unmodelled\<close> marks the
  library behaviour that the model leaves out (it is never the result of a theorem below).
\<close>

datatype py_error = ValueError | IndexError | TypeError | JSONDecodeError | ReError | Unmodelled

definition dquote :: char where
  "dquote = CHR 0x22"

definition squote :: char where
  "squote = CHR 0x27"

definition newline :: char where
  "newline = CHR 0x0A"

definition backslash :: char where
  "backslash = CHR 0x5C"

definition is_space :: "char \<Rightarrow> bool" where
  "is_space c = (let n = (of_char c :: nat) in
     (9 \<le> n \<and> n \<le> 13) \<or> (28 \<le> n \<and> n \<le> 32) \<or> n = 133 \<or> n = 160)"

definition is_digit :: "char \<Rightarrow> bool" where
  "is_digit c = (let n = (of_char c :: nat) in 48 \<le> n \<and> n \<le> 57)"

definition is_word :: "char \<Rightarrow> bool" where
  "is_word c = (let n = (of_char c :: nat) in
     (48 \<le> n \<and> n \<le> 57) \<or> (65 \<le> n \<and> n \<le> 90) \<or> n = 95 \<or> (97 \<le> n \<and> n \<le> 122) \<or>
     n = 170 \<or> n = 178 \<or> n = 179 \<or> n = 181 \<or> n = 185 \<or> n = 186 \<or>
     (188 \<le> n \<and> n \<le> 190) \<or> (192 \<le> n \<and> n \<le> 214) \<or> (216 \<le> n \<and> n \<le> 246) \<or>
     (248 \<le> n \<and> n \<le> 255))"

text \<open>\<^verbatim>\<open>s.strip()\<close>: whitespace removed at both ends.\<close>

definition strip :: "string \<Rightarrow> string" where
  "strip s = rev (dropWhile is_space (rev (dropWhile is_space s)))"

text \<open>\<^verbatim>\<open>s.split(sep)\<close> for a separator of one character: never an empty list.\<close>

fun split_on :: "char \<Rightarrow> string \<Rightarrow> string list" where
  "split_on sep [] = [[]]"
| "split_on sep (c # cs) =
     (if c = sep then [] # split_on sep cs
      else (case split_on sep cs of [] \<Rightarrow> [[c]] | w # ws \<Rightarrow> (c # w) # ws))"

text \<open>\<^verbatim>\<open>s.split()\<close>: the maximal runs of characters that are not whitespace.\<close>

function split_ws :: "string \<Rightarrow> string list" where
  "split_ws [] = []"
| "split_ws (c # cs) =
     (if is_space c then split_ws cs
      else (c # takeWhile (\<lambda>x. \<not> is_space x) cs) # split_ws (dropWhile (\<lambda>x. \<not> is_space x) cs))"
  by pat_completeness auto
termination
  by (relation "measure length") (auto simp: length_dropWhile_le less_Suc_eq_le)

text \<open>
  \<^verbatim>\<open>s.replace(old, new)\<close>: the occurrences of \<open>old\<close> are found from the left and do not
  overlap. With an empty \<open>old\<close> Python puts \<open>new\<close> around every character.
\<close>

function replace_str :: "string \<Rightarrow> string \<Rightarrow> string \<Rightarrow> string" where
  "replace_str old new [] = (if old = [] then new else [])"
| "replace_str old new (c # cs) =
     (if old = [] then new @ c # replace_str old new cs
      else if prefix old (c # cs) then new @ replace_str old new (drop (length old - 1) cs)
      else c # replace_str old new cs)"
  by pat_completeness auto
termination
  by (relation "measure (\<lambda>(old, new, s). length s)") auto

text \<open>\<^verbatim>\<open>sub in s\<close> on strings.\<close>

fun contains :: "string \<Rightarrow> string \<Rightarrow> bool" where
  "contains sub [] = (sub = [])"
| "contains sub (c # cs) = (prefix sub (c # cs) \<or> contains sub cs)"

text \<open>\<^verbatim>\<open>sep.join(xs)\<close>.\<close>

fun join :: "string \<Rightarrow> string list \<Rightarrow> string" where
  "join sep [] = []"
| "join sep [x] = x"
| "join sep (x # y # ys) = x @ sep @ join sep (y # ys)"

text \<open>
  The longest prefix of a text that ends with \<open>pat\<close>: what a greedy \<^verbatim>\<open>.*\<close> followed by
  the literal \<open>pat\<close> matches on one line.
\<close>

fun upto_last :: "string \<Rightarrow> string \<Rightarrow> string option" where
  "upto_last pat [] = (if pat = [] then Some [] else None)"
| "upto_last pat (c # cs) =
     (case upto_last pat cs of
        Some m \<Rightarrow> Some (c # m)
      | None \<Rightarrow> if prefix pat (c # cs) then Some pat else None)"

section \<open>The path resolver\<close>

text \<open>
  \<^verbatim>\<open>fix_dir\<close> (lines 256-285). \<^verbatim>\<open>output_dir[-1]\<close> raises \<^verbatim>\<open>IndexError\<close> on the empty
  string.
\<close>

definition fix_dir :: "string \<Rightarrow> py_error + string" where
  "fix_dir dir_path =
     (let output_dir =
        (if prefix ''ioc/'' dir_path then ''/cds/group/pcds/epics/'' @ dir_path
         else if contains ''common'' dir_path then dir_path @ ''/children''
         else dir_path)
      in if output_dir = [] then Inl IndexError
         else if last output_dir \<noteq> CHR ''/'' then Inr (output_dir @ ''/'')
         else Inr output_dir)"

section \<open>The quasi-JSON normalizer\<close>

text \<open>
  \<^verbatim>\<open>re.sub(r"(?<!'|\w)\w+(?!')(?=:\s?)", r"'\g<0>'", text)\<close> (line 165). A match starts at
  a word character that follows neither a single quote nor a word character, so it
  starts a maximal run of word characters; the run is greedy, and the lookahead asks
  for a colon right after it, which a shorter run never has. The run is wrapped in
  single quotes and the scan goes on behind it. \<open>prev\<close> is the character before the
  position, if any.
\<close>

function quote_keys :: "char option \<Rightarrow> string \<Rightarrow> string" where
  "quote_keys prev [] = []"
| "quote_keys prev (c # cs) =
     (if is_word c \<and> prev \<noteq> Some squote \<and> (case prev of None \<Rightarrow> True | Some p \<Rightarrow> \<not> is_word p)
         \<and> prefix '':'' (dropWhile is_word cs)
      then squote # c # takeWhile is_word cs @ squote #
           quote_keys (Some (last (c # takeWhile is_word cs))) (dropWhile is_word cs)
      else c # quote_keys (Some c) cs)"
  by pat_completeness auto
termination
  by (relation "measure (\<lambda>(prev, s). length s)") (auto simp: length_dropWhile_le less_Suc_eq_le)

text \<open>
  \<^verbatim>\<open>re.sub(r"(?<=:)\d+", r"'\g<0>'", text)\<close> (line 170): a maximal run of digits right
  after a colon is wrapped in single quotes.
\<close>

function quote_digits :: "char option \<Rightarrow> string \<Rightarrow> string" where
  "quote_digits prev [] = []"
| "quote_digits prev (c # cs) =
     (if is_digit c \<and> prev = Some (CHR '':'')
      then squote # c # takeWhile is_digit cs @ squote #
           quote_digits (Some (last (c # takeWhile is_digit cs))) (dropWhile is_digit cs)
      else c # quote_digits (Some c) cs)"
  by pat_completeness auto
termination
  by (relation "measure (\<lambda>(prev, s). length s)") (auto simp: length_dropWhile_le less_Suc_eq_le)

text \<open>
  \<^verbatim>\<open>fix_json\<close> (lines 149-178). Line 163 computes the text without blanks, and line 165
  overwrites that result with a substitution on \<^verbatim>\<open>raw_data\<close>: the first binding of
  \<open>temp\<close> below is the value of line 163, which nothing reads.
\<close>

definition fix_json :: "string \<Rightarrow> string list" where
  "fix_json raw_data =
     (let temp = strip (replace_str '' '' [] raw_data);
          temp = quote_keys None raw_data;
          temp = replace_str ''True'' ''true'' temp;
          temp = replace_str ''False'' ''false'' temp;
          temp = quote_digits None temp
      in split_on newline
           (strip (replace_str '' {'' ''{'' (replace_str ''},'' ''}''
              (replace_str [squote] [dquote] temp)))))"

text \<open>
  The normalizer as the specification words it (section 4.1): step 1 strips all
  whitespace, and every later step rewrites the text the step before it produced.
\<close>

definition normalizer_as_specified :: "string \<Rightarrow> string list" where
  "normalizer_as_specified raw_data =
     (let temp = filter (\<lambda>c. \<not> is_space c) raw_data;
          temp = quote_keys None temp;
          temp = replace_str ''True'' ''true'' temp;
          temp = replace_str ''False'' ''false'' temp;
          temp = quote_digits None temp
      in split_on newline
           (strip (replace_str '' {'' ''{'' (replace_str ''},'' ''}''
              (replace_str [squote] [dquote] temp)))))"

section \<open>Structured parsing\<close>

text \<open>
  \<^verbatim>\<open>json.loads\<close> is library code. The model covers the JSON texts built from objects,
  arrays, strings without escape sequences, integers and \<^verbatim>\<open>true\<close>, \<^verbatim>\<open>false\<close>, \<^verbatim>\<open>null\<close>;
  it answers \<open>Unmodelled\<close> on an escape sequence in a string and on a number that is not
  an integer. A Python \<^verbatim>\<open>dict\<close> is an association list in insertion order: a later
  value for a key replaces the earlier one in place, as assignment to a \<^verbatim>\<open>dict\<close> does.
\<close>

datatype json = JNull | JBool bool | JInt int | JStr string | JArr "json list"
  | JObj "(string \<times> json) list"

datatype token = TLBrace | TRBrace | TLBrack | TRBrack | TColon | TComma
  | TStr string | TInt int | TTrue | TFalse | TNull

fun dict_set :: "string \<Rightarrow> json \<Rightarrow> (string \<times> json) list \<Rightarrow> (string \<times> json) list" where
  "dict_set k v [] = [(k, v)]"
| "dict_set k v ((k', v') # d) = (if k = k' then (k, v) # d else (k', v') # dict_set k v d)"

definition digit_val :: "char \<Rightarrow> int" where
  "digit_val c = int (of_char c) - 48"

definition int_of_digits :: "string \<Rightarrow> int" where
  "int_of_digits ds = foldl (\<lambda>n d. 10 * n + digit_val d) 0 ds"

definition cons_token :: "token \<Rightarrow> py_error + token list \<Rightarrow> py_error + token list" where
  "cons_token t r = (case r of Inl e \<Rightarrow> Inl e | Inr ts \<Rightarrow> Inr (t # ts))"

definition plain_char :: "char \<Rightarrow> bool" where
  "plain_char c = (c \<noteq> dquote \<and> c \<noteq> backslash \<and> 32 \<le> (of_char c :: nat))"

definition float_tail :: "string \<Rightarrow> bool" where
  "float_tail r =
     (case r of
        [] \<Rightarrow> False
      | c # r' \<Rightarrow>
          if c = CHR ''.'' then (case r' of [] \<Rightarrow> False | d # _ \<Rightarrow> is_digit d)
          else if c = CHR ''e'' \<or> c = CHR ''E'' then
            (case r' of
               [] \<Rightarrow> False
             | s # r'' \<Rightarrow>
                 if s = CHR ''+'' \<or> s = CHR ''-'' then (case r'' of [] \<Rightarrow> False | d # _ \<Rightarrow> is_digit d)
                 else is_digit s)
          else False)"

function tokenize :: "string \<Rightarrow> py_error + token list" where
  "tokenize [] = Inr []"
| "tokenize (c # cs) =
     (if c = CHR '' '' \<or> c = CHR 0x09 \<or> c = newline \<or> c = CHR 0x0D then tokenize cs
      else if c = CHR ''{'' then cons_token TLBrace (tokenize cs)
      else if c = CHR ''}'' then cons_token TRBrace (tokenize cs)
      else if c = CHR ''['' then cons_token TLBrack (tokenize cs)
      else if c = CHR '']'' then cons_token TRBrack (tokenize cs)
      else if c = CHR '':'' then cons_token TColon (tokenize cs)
      else if c = CHR '','' then cons_token TComma (tokenize cs)
      else if c = dquote then
        (case dropWhile plain_char cs of
           [] \<Rightarrow> Inl JSONDecodeError
         | e # rest \<Rightarrow>
             if e = dquote then cons_token (TStr (takeWhile plain_char cs)) (tokenize rest)
             else if e = backslash then Inl Unmodelled
             else Inl JSONDecodeError)
      else if prefix ''-Infinity'' (c # cs) \<or> prefix ''Infinity'' (c # cs) \<or> prefix ''NaN'' (c # cs)
        then Inl Unmodelled
      else if c = CHR ''-'' \<or> is_digit c then
        (let ds = (if c = CHR ''-'' then cs else c # cs) in
         case ds of
           [] \<Rightarrow> Inl JSONDecodeError
         | d # ds' \<Rightarrow>
             if \<not> is_digit d then Inl JSONDecodeError
             else
               (let ip = (if d = CHR ''0'' then [d] else d # takeWhile is_digit ds');
                    rest = (if d = CHR ''0'' then ds' else dropWhile is_digit ds') in
                if float_tail rest then Inl Unmodelled
                else cons_token (TInt (if c = CHR ''-'' then - int_of_digits ip else int_of_digits ip))
                       (tokenize rest)))
      else if prefix ''true'' (c # cs) then cons_token TTrue (tokenize (drop 3 cs))
      else if prefix ''false'' (c # cs) then cons_token TFalse (tokenize (drop 4 cs))
      else if prefix ''null'' (c # cs) then cons_token TNull (tokenize (drop 3 cs))
      else Inl JSONDecodeError)"
  by pat_completeness auto
termination
proof (relation "measure length", goal_cases)
  case (9 c cs e rest)
  have "length (dropWhile plain_char cs) \<le> length cs"
    by (rule length_dropWhile_le)
  with 9 show ?case by simp
next
  case (10 c cs ds d ds' ip rest)
  have "length (dropWhile is_digit ds') \<le> length ds'"
    by (rule length_dropWhile_le)
  with 10 show ?case by (auto split: if_splits)
qed auto

text \<open>
  The parser over the tokens. The fuel bounds the calls; \<open>json_loads\<close> gives two units
  per token and two more, and a call passes on one unit less than it has.
\<close>

fun parse_value :: "nat \<Rightarrow> token list \<Rightarrow> py_error + (json \<times> token list)"
  and parse_elements :: "nat \<Rightarrow> json list \<Rightarrow> token list \<Rightarrow> py_error + (json \<times> token list)"
  and parse_members ::
    "nat \<Rightarrow> (string \<times> json) list \<Rightarrow> token list \<Rightarrow> py_error + (json \<times> token list)" where
  "parse_value 0 ts = Inl Unmodelled"
| "parse_value (Suc n) [] = Inl JSONDecodeError"
| "parse_value (Suc n) (t # ts) =
     (case t of
        TNull \<Rightarrow> Inr (JNull, ts)
      | TTrue \<Rightarrow> Inr (JBool True, ts)
      | TFalse \<Rightarrow> Inr (JBool False, ts)
      | TInt i \<Rightarrow> Inr (JInt i, ts)
      | TStr s \<Rightarrow> Inr (JStr s, ts)
      | TLBrack \<Rightarrow>
          (case ts of TRBrack # ts' \<Rightarrow> Inr (JArr [], ts') | _ \<Rightarrow> parse_elements n [] ts)
      | TLBrace \<Rightarrow>
          (case ts of TRBrace # ts' \<Rightarrow> Inr (JObj [], ts') | _ \<Rightarrow> parse_members n [] ts)
      | _ \<Rightarrow> Inl JSONDecodeError)"
| "parse_elements 0 acc ts = Inl Unmodelled"
| "parse_elements (Suc n) acc ts =
     (case parse_value n ts of
        Inl e \<Rightarrow> Inl e
      | Inr (v, ts') \<Rightarrow>
          (case ts' of
             TComma # ts'' \<Rightarrow> parse_elements n (acc @ [v]) ts''
           | TRBrack # ts'' \<Rightarrow> Inr (JArr (acc @ [v]), ts'')
           | _ \<Rightarrow> Inl JSONDecodeError))"
| "parse_members 0 acc ts = Inl Unmodelled"
| "parse_members (Suc n) acc ts =
     (case ts of
        TStr k # TColon # ts' \<Rightarrow>
          (case parse_value n ts' of
             Inl e \<Rightarrow> Inl e
           | Inr (v, ts'') \<Rightarrow>
               (case ts'' of
                  TComma # r \<Rightarrow> parse_members n (dict_set k v acc) r
                | TRBrace # r \<Rightarrow> Inr (JObj (dict_set k v acc), r)
                | _ \<Rightarrow> Inl JSONDecodeError))
      | _ \<Rightarrow> Inl JSONDecodeError)"

definition json_loads :: "string \<Rightarrow> py_error + json" where
  "json_loads s =
     (case tokenize s of
        Inl e \<Rightarrow> Inl e
      | Inr ts \<Rightarrow>
          (case parse_value (2 * length ts + 2) ts of
             Inl e \<Rightarrow> Inl e
           | Inr (v, rest) \<Rightarrow> if rest = [] then Inr v else Inl JSONDecodeError))"

text \<open>\<^verbatim>\<open>[json.loads(s) for s in xs]\<close>: the first failure is the failure of the whole.\<close>

fun loads_all :: "string list \<Rightarrow> py_error + json list" where
  "loads_all [] = Inr []"
| "loads_all (s # ss) =
     (case json_loads s of
        Inl e \<Rightarrow> Inl e
      | Inr v \<Rightarrow> (case loads_all ss of Inl e \<Rightarrow> Inl e | Inr vs \<Rightarrow> Inr (v # vs)))"

section \<open>Files and regular-expression search\<close>

text \<open>
  The file system is a parameter: a path names a directory, a regular file with its
  text (decoded, with the line ends already translated to the newline), or nothing.
  \<^verbatim>\<open>os.path.isfile\<close> and \<^verbatim>\<open>os.path.exists\<close> read it. Failures of \<^verbatim>\<open>open\<close> on an existing
  regular file are outside the model.
\<close>

datatype fs_entry = Directory | File string

type_synonym filesystem = "string \<Rightarrow> fs_entry option"

text \<open>\<^verbatim>\<open>f.readlines()\<close>: every line keeps its newline; the last one may have none.\<close>

fun readlines :: "string \<Rightarrow> string list" where
  "readlines [] = []"
| "readlines (c # cs) =
     (if c = newline then [c] # readlines cs
      else (case readlines cs of [] \<Rightarrow> [[c]] | l # ls \<Rightarrow> (c # l) # ls))"

text \<open>
  The loop of \<^verbatim>\<open>search_file\<close> (lines 135-137). \<open>matches\<close> stands for
  \<^verbatim>\<open>re.search(patt, line)\<close>: \<open>Inr True\<close> for a match, \<open>Inl\<close> when the pattern does not
  compile. No caller in the script passes \<^verbatim>\<open>color_wrap\<close>, so \<^verbatim>\<open>color\<close> and \<^verbatim>\<open>reset\<close> are
  empty and \<^verbatim>\<open>re.sub(patt, r'\g<0>', line)\<close> puts every match back: the line is kept as
  it is.
\<close>

fun matching_lines :: "(string \<Rightarrow> py_error + bool) \<Rightarrow> string list \<Rightarrow> py_error + string list" where
  "matching_lines matches [] = Inr []"
| "matching_lines matches (l # ls) =
     (case matches l of
        Inl e \<Rightarrow> Inl e
      | Inr b \<Rightarrow>
          (case matching_lines matches ls of
             Inl e \<Rightarrow> Inl e
           | Inr out \<Rightarrow> Inr (if b then l # out else out)))"

text \<open>
  \<^verbatim>\<open>search_file\<close> (lines 102-138): the lines printed, and the result. A path that is not a
  regular file gives the empty string.
\<close>

definition search_file ::
  "filesystem \<Rightarrow> (string \<Rightarrow> py_error + bool) \<Rightarrow> string \<Rightarrow> string \<Rightarrow> string list \<times> (py_error + string)"
  where
  "search_file fs matches file pref =
     (case fs file of
        Some (File text) \<Rightarrow>
          (case matching_lines matches (readlines text) of
             Inl e \<Rightarrow> ([], Inl e)
           | Inr output \<Rightarrow> ([], Inr (pref @ join pref output)))
      | _ \<Rightarrow> ([file @ '' does not exist''], Inr []))"

text \<open>
  A search engine for the patterns \<^verbatim>\<open>find_ioc\<close> builds, \<^verbatim>\<open>'{.*' + patt + '.*}'\<close>, when
  \<^verbatim>\<open>patt\<close> has no newline and no character that is special in a regular expression: on
  one line, an
  opening brace, later the text \<^verbatim>\<open>patt\<close>, later a closing brace. Other patterns are
  outside this engine.
\<close>

fun after_first :: "string \<Rightarrow> string \<Rightarrow> string option" where
  "after_first lit [] = (if lit = [] then Some [] else None)"
| "after_first lit (c # cs) =
     (if prefix lit (c # cs) then Some (drop (length lit) (c # cs)) else after_first lit cs)"

definition braced_on_line :: "string \<Rightarrow> string \<Rightarrow> bool" where
  "braced_on_line lit seg =
     (case dropWhile (\<lambda>c. c \<noteq> CHR ''{'') seg of
        [] \<Rightarrow> False
      | _ # r \<Rightarrow> (case after_first lit r of None \<Rightarrow> False | Some r' \<Rightarrow> CHR ''}'' \<in> set r'))"

definition regex_special :: "char \<Rightarrow> bool" where
  "regex_special c = (c \<in> set ''.^$*+?{}[]|()'' \<or> c = backslash \<or> c = newline)"

definition re_search_braced :: "string \<Rightarrow> string \<Rightarrow> py_error + bool" where
  "re_search_braced pat line =
     (let lit = take (length pat - 6) (drop 3 pat) in
      if pat = ''{.*'' @ lit @ ''.*}'' \<and> \<not> list_ex regex_special lit
      then Inr (list_ex (braced_on_line lit) (split_on newline line))
      else Inl Unmodelled)"

section \<open>The inventory matcher\<close>

text \<open>
  \<^verbatim>\<open>re.findall(r'/.*cfg\:', text)\<close> (line 242): from a slash to the last \<^verbatim>\<open>cfg:\<close> of the
  same line; the scan goes on behind the match.
\<close>

function findall_cfg :: "string \<Rightarrow> string list" where
  "findall_cfg [] = []"
| "findall_cfg (c # cs) =
     (if c = CHR ''/'' then
        (case upto_last ''cfg:'' (takeWhile (\<lambda>x. x \<noteq> newline) cs) of
           Some m \<Rightarrow> (c # m) # findall_cfg (drop (length m) cs)
         | None \<Rightarrow> findall_cfg cs)
      else findall_cfg cs)"
  by pat_completeness auto
termination
  by (relation "measure length") auto

text \<open>
  \<^verbatim>\<open>re.findall(r'(?<=/)\w+(?=/ioc)', s)\<close> (line 243): a maximal run of word characters
  right after a slash and right before \<^verbatim>\<open>/ioc\<close>.
\<close>

function findall_hutch :: "char option \<Rightarrow> string \<Rightarrow> string list" where
  "findall_hutch prev [] = []"
| "findall_hutch prev (c # cs) =
     (if is_word c \<and> prev = Some (CHR ''/'') \<and> prefix ''/ioc'' (dropWhile is_word cs)
      then (c # takeWhile is_word cs) #
           findall_hutch (Some (last (c # takeWhile is_word cs))) (dropWhile is_word cs)
      else findall_hutch (Some c) cs)"
  by pat_completeness auto
termination
  by (relation "measure (\<lambda>(prev, s). length s)") (auto simp: length_dropWhile_le less_Suc_eq_le)

text \<open>
  \<^verbatim>\<open>re.sub(r'.*cfg\:', '', text)\<close> (line 246): on every line, the text up to the last
  \<^verbatim>\<open>cfg:\<close> is removed. A match ends with \<^verbatim>\<open>cfg:\<close>, so it has at least the first
  character \<open>c\<close>, and the scan goes on \<open>length m - 1\<close> characters behind \<open>c\<close>.
\<close>

function sub_cfg :: "string \<Rightarrow> string" where
  "sub_cfg [] = []"
| "sub_cfg (c # cs) =
     (case upto_last ''cfg:'' (takeWhile (\<lambda>x. x \<noteq> newline) (c # cs)) of
        Some m \<Rightarrow> sub_cfg (drop (length m - 1) cs)
      | None \<Rightarrow> c # sub_cfg cs)"
  by pat_completeness auto
termination
  by (relation "measure length") auto

definition hutch_list :: "string list" where
  "hutch_list = [''xpp'', ''xcs'', ''cxi'', ''mfx'', ''mec'', ''tmo'', ''rix'', ''xrt'',
                 ''aux'', ''det'', ''fee'', ''hpl'', ''icl'', ''las'', ''lfe'', ''kfe'',
                 ''tst'', ''txi'', ''thz'', ''all'']"

text \<open>The sequences of \<^verbatim>\<open>colorama\<close>: \<^verbatim>\<open>Fore.RED\<close> and \<^verbatim>\<open>Style.RESET_ALL\<close>.\<close>

definition fore_red :: string where
  "fore_red = CHR 0x1B # ''[31m''"

definition style_reset_all :: string where
  "style_reset_all = CHR 0x1B # ''[0m''"

text \<open>
  The loop of lines 226-232 over the configuration files. \<open>many\<close> is
  \<^verbatim>\<open>len(path) != 1\<close>: only then a line is prefixed with the path of its file.
\<close>

fun search_files ::
  "filesystem \<Rightarrow> (string \<Rightarrow> py_error + bool) \<Rightarrow> bool \<Rightarrow> string list
     \<Rightarrow> string list \<times> (py_error + string list)" where
  "search_files fs matches many [] = ([], Inr [])"
| "search_files fs matches many (f # files) =
     (let pref = (if many then f @ '':'' else []) in
      case search_file fs matches f pref of
        (printed, Inl e) \<Rightarrow> (printed, Inl e)
      | (printed, Inr output) \<Rightarrow>
          (case search_files fs matches many files of
             (printed', Inl e) \<Rightarrow> (printed @ printed', Inl e)
           | (printed', Inr result) \<Rightarrow>
               (printed @ printed', Inr (if output \<noteq> pref then output # result else result))))"

text \<open>
  The loop of lines 251-252: \<^verbatim>\<open>_d['hutch'] = hutch_cfgs[_i]\<close>. The index is read first
  (\<^verbatim>\<open>IndexError\<close> behind the end of \<^verbatim>\<open>hutch_cfgs\<close>), then the item is assigned
  (\<^verbatim>\<open>TypeError\<close> on a value that is not a \<^verbatim>\<open>dict\<close>).
\<close>

fun tag_hutches :: "json list \<Rightarrow> string list \<Rightarrow> py_error + json list" where
  "tag_hutches [] hutch_cfgs = Inr []"
| "tag_hutches (d # ds) [] = Inl IndexError"
| "tag_hutches (d # ds) (h # hs) =
     (case d of
        JObj kvs \<Rightarrow>
          (case tag_hutches ds hs of
             Inl e \<Rightarrow> Inl e
           | Inr ds' \<Rightarrow> Inr (JObj (dict_set ''hutch'' (JStr h) kvs) # ds'))
      | _ \<Rightarrow> Inl TypeError)"

text \<open>
  \<^verbatim>\<open>find_ioc\<close> (lines 181-253): the lines printed, and the outcome: an exception, \<^verbatim>\<open>None\<close>
  or the list of records. \<open>glob_cfg\<close> is what
  \<^verbatim>\<open>glob('/cds/group/pcds/pyps/config/*/iocmanager.cfg')\<close> returns, and \<open>re_search\<close> is
  \<^verbatim>\<open>re.search\<close>, from the pattern and the line.
\<close>

definition cfg_paths :: "string list \<Rightarrow> string \<Rightarrow> string list" where
  "cfg_paths glob_cfg h =
     (if h = ''all'' then glob_cfg else [''/cds/group/pcds/pyps/config/'' @ h @ ''/iocmanager.cfg''])"

definition find_ioc ::
  "filesystem \<Rightarrow> string list \<Rightarrow> (string \<Rightarrow> string \<Rightarrow> py_error + bool) \<Rightarrow> string option \<Rightarrow> string option
     \<Rightarrow> string list \<times> (py_error + json list option)" where
  "find_ioc fs glob_cfg re_search hutch patt =
     (if hutch = None \<or> the hutch \<notin> set hutch_list then
        ([''Invalid entry. Please choose a valid hutch:'' @ newline # join '','' hutch_list],
         Inl ValueError)
      else
        (let h = the hutch;
             path = cfg_paths glob_cfg h in
         case patt of
           None \<Rightarrow> ([''No regex pattern supplied''], Inl ValueError)
         | Some p \<Rightarrow>
             (let pat = ''{.*'' @ p @ ''.*}'' in
              case search_files fs (re_search pat) (length path \<noteq> 1) path of
                (printed, Inl e) \<Rightarrow> (printed, Inl e)
              | (printed, Inr result) \<Rightarrow>
                  (let temp = concat result in
                   if length temp = 0 then
                     (printed @ [fore_red @ ''No results found for '' @ style_reset_all @ pat
                                 @ fore_red @ '' in'' @ style_reset_all @ h],
                      Inr None)
                   else
                     (let hutch_cfgs =
                            (if h = ''all''
                             then map (\<lambda>s. concat (findall_hutch None s)) (findall_cfg temp)
                             else []);
                          temp = sub_cfg temp in
                      case loads_all (fix_json temp) of
                        Inl e \<Rightarrow> (printed, Inl e)
                      | Inr output \<Rightarrow>
                          if h = ''all'' then
                            (case tag_hutches output hutch_cfgs of
                               Inl e \<Rightarrow> (printed, Inl e)
                             | Inr tagged \<Rightarrow> (printed, Inr (Some tagged)))
                          else (printed, Inr (Some output)))))))"

section \<open>The command-script extractor\<close>







section \<open>The alias template expander\<close>

text \<open>
  \<^verbatim>\<open>re.sub(r'alias\(| +', '', text)\<close> (line 418): every \<^verbatim>\<open>alias(\<close> and every run of blanks
  is removed.
\<close>

function sub_alias_blanks :: "string \<Rightarrow> string" where
  "sub_alias_blanks [] = []"
| "sub_alias_blanks (c # cs) =
     (if prefix ''alias('' (c # cs) then sub_alias_blanks (drop 5 cs)
      else if c = CHR '' '' then sub_alias_blanks (dropWhile (\<lambda>x. x = CHR '' '') cs)
      else c # sub_alias_blanks cs)"
  by pat_completeness auto
termination
  by (relation "measure length") (auto simp: length_dropWhile_le less_Suc_eq_le)

text \<open>
  \<^verbatim>\<open>re.sub(r'\)\s*\n', '\n', text)\<close> (line 419): a closing parenthesis, the whitespace
  behind it up to the last newline of that whitespace, replaced by one newline. Without
  a newline in the whitespace there is no match.
\<close>

function sub_paren_newline :: "string \<Rightarrow> string" where
  "sub_paren_newline [] = []"
| "sub_paren_newline (c # cs) =
     (if c = CHR '')'' then
        (case upto_last [newline] (takeWhile is_space cs) of
           Some m \<Rightarrow> newline # sub_paren_newline (drop (length m) cs)
         | None \<Rightarrow> c # sub_paren_newline cs)
      else c # sub_paren_newline cs)"
  by pat_completeness auto
termination
  by (relation "measure length") auto

text \<open>
  The replacement string of \<^verbatim>\<open>re.sub\<close> is a template: \<^verbatim>\<open>re\<close> reads its backslash escapes
  (\<^verbatim>\<open>parse_template\<close>), also when the pattern matches nowhere. \<open>m\<close> is the matched text,
  which \<^verbatim>\<open>\g<0>\<close> stands for; the patterns of lines 421-422 have no group, so every other
  group reference is an error. A group name that is not a run of digits is outside the
  model.
\<close>

definition cons_char :: "char \<Rightarrow> py_error + string \<Rightarrow> py_error + string" where
  "cons_char c r = (case r of Inl e \<Rightarrow> Inl e | Inr s \<Rightarrow> Inr (c # s))"

definition is_octal :: "char \<Rightarrow> bool" where
  "is_octal c = (let n = (of_char c :: nat) in 48 \<le> n \<and> n \<le> 55)"

definition ascii_letter :: "char \<Rightarrow> bool" where
  "ascii_letter c = (let n = (of_char c :: nat) in (65 \<le> n \<and> n \<le> 90) \<or> (97 \<le> n \<and> n \<le> 122))"

definition octal_val :: "string \<Rightarrow> nat" where
  "octal_val ds = foldl (\<lambda>n d. 8 * n + (of_char d - 48)) 0 ds"

definition escape_char :: "char \<Rightarrow> char option" where
  "escape_char e =
     (if e = CHR ''a'' then Some (CHR 0x07) else if e = CHR ''b'' then Some (CHR 0x08)
      else if e = CHR ''f'' then Some (CHR 0x0C) else if e = CHR ''n'' then Some (CHR 0x0A)
      else if e = CHR ''r'' then Some (CHR 0x0D) else if e = CHR ''t'' then Some (CHR 0x09)
      else if e = CHR ''v'' then Some (CHR 0x0B) else if e = backslash then Some backslash
      else None)"

function expand_repl :: "string \<Rightarrow> string \<Rightarrow> py_error + string" where
  "expand_repl m [] = Inr []"
| "expand_repl m (c # r) =
     (if c \<noteq> backslash then cons_char c (expand_repl m r)
      else
        (case r of
           [] \<Rightarrow> Inl ReError
         | e # rest \<Rightarrow>
             if e = CHR ''g'' then
               (case rest of
                  [] \<Rightarrow> Inl ReError
                | lt # rest' \<Rightarrow>
                    if lt \<noteq> CHR ''<'' then Inl ReError
                    else
                      (case dropWhile (\<lambda>x. x \<noteq> CHR ''>'') rest' of
                         [] \<Rightarrow> Inl ReError
                       | gt # after \<Rightarrow>
                           (let name = takeWhile (\<lambda>x. x \<noteq> CHR ''>'') rest' in
                            if name = [] then Inl ReError
                            else if list_all is_digit name then
                              (if list_all (\<lambda>x. x = CHR ''0'') name
                               then (case expand_repl m after of
                                       Inl err \<Rightarrow> Inl err | Inr s \<Rightarrow> Inr (m @ s))
                               else Inl ReError)
                            else Inl Unmodelled)))
             else if e = CHR ''0'' then
               (let ds = takeWhile is_octal (take 2 rest) in
                cons_char (char_of (octal_val ds mod 256)) (expand_repl m (drop (length ds) rest)))
             else if is_digit e then
               (case rest of
                  d1 # d2 # rest' \<Rightarrow>
                    if is_octal e \<and> is_octal d1 \<and> is_octal d2 then
                      (if octal_val [e, d1, d2] > 255 then Inl ReError
                       else cons_char (char_of (octal_val [e, d1, d2])) (expand_repl m rest'))
                    else Inl ReError
                | _ \<Rightarrow> Inl ReError)
             else
               (case escape_char e of
                  Some x \<Rightarrow> cons_char x (expand_repl m rest)
                | None \<Rightarrow>
                    if ascii_letter e then Inl ReError
                    else cons_char backslash (cons_char e (expand_repl m rest)))))"
  by pat_completeness auto
termination
proof (relation "measure (\<lambda>(m, r). length r)", goal_cases)
  case (3 m c r e rest lt rest' gt after name)
  have "length (dropWhile (\<lambda>x. x \<noteq> CHR ''>'') rest') \<le> length rest'"
    by (rule length_dropWhile_le)
  with 3 show ?case by simp
qed auto

text \<open>
  \<^verbatim>\<open>re.sub(pattern, repl, text)\<close> for a pattern that matches exactly the text \<open>lit\<close>
  (lines 421-422: \<^verbatim>\<open>\$\(RECORD\)\<close> and \<^verbatim>\<open>\$\(ALIAS\)\<close>).
\<close>

definition re_sub_literal :: "string \<Rightarrow> string \<Rightarrow> string \<Rightarrow> py_error + string" where
  "re_sub_literal lit repl text =
     (case expand_repl lit repl of Inl e \<Rightarrow> Inl e | Inr r \<Rightarrow> Inr (replace_str lit r text))"

text \<open>
  \<^verbatim>\<open>process_alias_template\<close> (lines 386-423): the lines printed, and the outcome; \<open>None\<close>
  is the \<^verbatim>\<open>None\<close> the function returns when the template file does not exist. \<^verbatim>\<open>open\<close> on a
  directory raises \<^verbatim>\<open>IsADirectoryError\<close>, which is an \<^verbatim>\<open>OSError\<close>.
\<close>

datatype os_error = IsADirectoryError

definition template_fields :: "string \<Rightarrow> string list list" where
  "template_fields temp =
     map (\<lambda>s. split_on (CHR '','') (replace_str [dquote] [] s)) (split_ws temp)"

definition process_alias_template ::
  "filesystem \<Rightarrow> string \<Rightarrow> string \<Rightarrow> string
     \<Rightarrow> string list \<times> ((os_error + py_error) + string list list option)" where
  "process_alias_template fs parent_release record_name alias_name =
     (case fs (parent_release @ ''/db/alias.db'') of
        None \<Rightarrow> ([parent_release @ '' does not exist''], Inr None)
      | Some Directory \<Rightarrow> ([], Inl (Inl IsADirectoryError))
      | Some (File text) \<Rightarrow>
          (let temp = sub_alias_blanks text;
               temp = sub_paren_newline temp in
           case re_sub_literal ''$(RECORD)'' record_name temp of
             Inl e \<Rightarrow> ([], Inl (Inr e))
           | Inr temp \<Rightarrow>
               (case re_sub_literal ''$(ALIAS)'' alias_name temp of
                  Inl e \<Rightarrow> ([], Inl (Inr e))
                | Inr temp \<Rightarrow> ([], Inr (Some (template_fields temp))))))"

section \<open>Predicates of the statements\<close>

text \<open>
  A source has no match: the path is not a regular file, or the search answers "no
  match" on every line of the file.
\<close>

definition no_match :: "filesystem \<Rightarrow> (string \<Rightarrow> py_error + bool) \<Rightarrow> string \<Rightarrow> bool" where
  "no_match fs matches f =
     (case fs f of
        Some (File text) \<Rightarrow> list_all (\<lambda>l. matches l = Inr False) (readlines text)
      | _ \<Rightarrow> True)"









text \<open>
  A template file in the form the alias database has: every line is a macro call
  \<^verbatim>\<open>alias(f1,...,fn)\<close> with a newline behind it. A field is a number of blanks before it,
  whether it stands in double quotes, a literal text, and then placeholders, each with
  the literal text behind it. \<open>template_text\<close> is the text of the file, and
  \<open>expand_field\<close> the field with the two values in place of the placeholders.
\<close>

datatype placeholder = Record_ph | Alias_ph

datatype tfield = TField nat bool string "(placeholder \<times> string) list"

fun ph_text :: "placeholder \<Rightarrow> string" where
  "ph_text Record_ph = ''$(RECORD)''"
| "ph_text Alias_ph = ''$(ALIAS)''"

fun expand_ph :: "string \<Rightarrow> string \<Rightarrow> placeholder \<Rightarrow> string" where
  "expand_ph r a Record_ph = r"
| "expand_ph r a Alias_ph = a"

definition pieces_text :: "(placeholder \<Rightarrow> string) \<Rightarrow> string \<Rightarrow> (placeholder \<times> string) list \<Rightarrow> string" where
  "pieces_text g h parts = h @ concat (map (\<lambda>(p, s). g p @ s) parts)"

fun field_bare :: "(placeholder \<Rightarrow> string) \<Rightarrow> tfield \<Rightarrow> string" where
  "field_bare g (TField n q h parts) =
     (if q then [dquote] else []) @ pieces_text g h parts @ (if q then [dquote] else [])"

fun field_text :: "tfield \<Rightarrow> string" where
  "field_text (TField n q h parts) = replicate n (CHR '' '') @ field_bare ph_text (TField n q h parts)"

definition template_line :: "tfield list \<Rightarrow> string" where
  "template_line fs = ''alias('' @ join '','' (map field_text fs) @ '')'' @ [newline]"

definition template_text :: "tfield list list \<Rightarrow> string" where
  "template_text lines = concat (map template_line lines)"

fun expand_field :: "string \<Rightarrow> string \<Rightarrow> tfield \<Rightarrow> string" where
  "expand_field r a (TField n q h parts) = pieces_text (expand_ph r a) h parts"

text \<open>
  The literal text of a field has no whitespace, comma, double quote, parenthesis or
  dollar sign; a line has two fields or more; a record or alias value has no whitespace,
  comma, double quote, dollar sign or backslash.
\<close>

definition lit_char :: "char \<Rightarrow> bool" where
  "lit_char c = (\<not> is_space c \<and> c \<noteq> CHR '','' \<and> c \<noteq> dquote \<and> c \<noteq> CHR ''(''
      \<and> c \<noteq> CHR '')'' \<and> c \<noteq> CHR ''$'')"

fun field_ok :: "tfield \<Rightarrow> bool" where
  "field_ok (TField n q h parts) = (list_all lit_char h \<and> list_all (\<lambda>(p, s). list_all lit_char s) parts)"

definition line_ok :: "tfield list \<Rightarrow> bool" where
  "line_ok fs = (2 \<le> length fs \<and> list_all field_ok fs)"

definition value_char :: "char \<Rightarrow> bool" where
  "value_char c = (\<not> is_space c \<and> c \<noteq> CHR '','' \<and> c \<noteq> dquote \<and> c \<noteq> CHR ''$'' \<and> c \<noteq> backslash)"

definition value_ok :: "string \<Rightarrow> bool" where
  "value_ok v = list_all value_char v"

section \<open>Example inputs\<close>

definition xpp_cfg :: string where
  "xpp_cfg = ''/cds/group/pcds/pyps/config/xpp/iocmanager.cfg''"

definition xcs_cfg :: string where
  "xcs_cfg = ''/cds/group/pcds/pyps/config/xcs/iocmanager.cfg''"

text \<open>One configuration file with one record line.\<close>

definition one_config :: filesystem where
  "one_config = (\<lambda>p. if p = xpp_cfg then Some (File (''{id:'ioc-a'}'' @ [newline])) else None)"

text \<open>Two configuration files; the record line of the first has no newline behind it.\<close>

definition two_configs :: filesystem where
  "two_configs =
     (\<lambda>p. if p = xpp_cfg then Some (File ''{id:'ioc-a'}'')
          else if p = xcs_cfg then Some (File (''{id:'ioc-b'}'' @ [newline]))
          else None)"

text \<open>A parent release whose template file \<^verbatim>\<open>db/alias.db\<close> holds the given text.\<close>

definition parent_with_template :: "string \<Rightarrow> filesystem" where
  "parent_with_template text = (\<lambda>p. if p = ''/parent/db/alias.db'' then Some (File text) else None)"





text \<open>
  A template of two lines: the line of the claim, and a line with quoted fields.
\<close>

definition example_template :: "tfield list list" where
  "example_template =
     [[TField 0 False [] [(Record_ph, [])], TField 1 False [] [(Record_ph, ''.RBV'')],
       TField 1 False [] [(Alias_ph, ''.RBV'')]],
      [TField 0 True [] [(Record_ph, ''.VAL'')], TField 0 True ''PRE:'' [(Alias_ph, ''.VAL'')]]]"

section \<open>Auxiliary notions of the proofs\<close>

text \<open>
  What may follow a field in a template line; the text of a line after the first pass
  and after the later ones; a text that does not start with whitespace; the characters
  that survive the splitting; the text of the fields of one line, joined by commas.
\<close>

definition after_field :: "string \<Rightarrow> bool" where
  "after_field r = (r \<noteq> [] \<and> (hd r = CHR '','' \<or> hd r = CHR '')''))"

definition line1 :: "tfield list \<Rightarrow> string" where
  "line1 fs = join '','' (map (field_bare ph_text) fs) @ '')'' @ [newline]"

definition no_space_first :: "string \<Rightarrow> bool" where
  "no_space_first r = (r = [] \<or> \<not> is_space (hd r))"

definition line2 :: "(placeholder \<Rightarrow> string) \<Rightarrow> tfield list \<Rightarrow> string" where
  "line2 g fs = join '','' (map (field_bare g) fs) @ [newline]"

definition fine_char :: "char \<Rightarrow> bool" where
  "fine_char c = (\<not> is_space c \<and> c \<noteq> CHR '','' \<and> c \<noteq> dquote)"

definition fields_text :: "string \<Rightarrow> string \<Rightarrow> tfield list \<Rightarrow> string" where
  "fields_text v a fs = join '','' (map (field_bare (expand_ph v a)) fs)"

section \<open>Properties of the path resolver\<close>

lemmas char_class_defs = is_space_def is_digit_def is_word_def dquote_def squote_def newline_def
  backslash_def

text \<open>
  C9. The claim: for every input string \<^verbatim>\<open>fix_dir\<close> returns normally a non-empty string
  whose last character is the separator. On the empty string the code takes the
  pass-through branch and then reads \<^verbatim>\<open>output_dir[-1]\<close> of the empty string: it raises
  \<^verbatim>\<open>IndexError\<close> and returns nothing.
\<close>

theorem fix_dir_empty_raises: "fix_dir [] = Inl IndexError"
  by (simp add: fix_dir_def)

text \<open>
  C8. The three examples of the claim hold, and the rules are tried in the order the
  claim gives; the trailing separator is not appended in all cases: for the empty input
  the claim asks for the separator alone, and the code raises \<^verbatim>\<open>IndexError\<close>.
\<close>

theorem fix_dir_examples_and_empty:
  "fix_dir ''ioc/foo'' = Inr ''/cds/group/pcds/epics/ioc/foo/''
   \<and> fix_dir ''/a/common/b'' = Inr ''/a/common/b/children/''
   \<and> fix_dir ''/a/b/'' = Inr ''/a/b/''
   \<and> fix_dir ''ioc/common'' = Inr ''/cds/group/pcds/epics/ioc/common/''
   \<and> fix_dir '''' \<noteq> Inr ''/''"
  by (simp add: fix_dir_def)

section \<open>Properties of the normalizer\<close>



text \<open>
  C4. The claim: the key-quoting pass works on the whitespace-stripped text. In the code
  it works on the raw input, so the blank after a colon stays and the digits behind it
  are not quoted; the normalizer of the specification quotes them.
\<close>

theorem fix_json_keeps_blanks:
  "fix_json ''{port: 30001}'' = [''{\"port\": 30001}'']
   \<and> normalizer_as_specified ''{port: 30001}'' = [''{\"port\":\"30001\"}'']"
  by (simp add: fix_json_def normalizer_as_specified_def strip_def char_class_defs)

text \<open>
  C3. The claim: on every line of the dialect the digit-valued fields come back as
  strings. The line below has the blank after the colon that the inventory files
  have; the digits do not follow the colon directly, stay unquoted, and the port comes
  back as the number 30001.
\<close>

theorem fix_json_port_is_number:
  "loads_all (fix_json ''{id:'ioc-xpp-01', port: 30001}'')
     = Inr [JObj [(''id'', JStr ''ioc-xpp-01''), (''port'', JInt 30001)]]"
  by code_simp









lemma split_on_single: "x \<notin> set a \<Longrightarrow> split_on x a = [a]"
  by (induction a) auto



section \<open>Properties of the inventory matcher\<close>

text \<open>
  C1. The claim: with the selector \<^verbatim>\<open>all\<close> the hutch of the N-th record is the facility of
  the file the record comes from, for any number of lines and files. When the glob
  finds one file, no line gets the path prefix (\<^verbatim>\<open>len(path) != 1\<close> is false), the list
  of hutch tags is empty and tagging the first record raises \<^verbatim>\<open>IndexError\<close>. When a
  matching line has no newline behind it, the prefix of the next file continues that
  line: the record of the first file is lost, and the record of \<^verbatim>\<open>xcs\<close> gets the tag
  \<^verbatim>\<open>xppxcs\<close>.
\<close>

theorem find_ioc_all_mistags:
  "find_ioc one_config [xpp_cfg] re_search_braced (Some ''all'') (Some ''ioc'')
     = ([], Inl IndexError)
   \<and> find_ioc two_configs [xpp_cfg, xcs_cfg] re_search_braced (Some ''all'') (Some ''ioc'')
     = ([], Inr (Some [JObj [(''id'', JStr ''ioc-b''), (''hutch'', JStr ''xppxcs'')]]))"
  by code_simp

lemma matching_lines_none:
  "list_all (\<lambda>l. matches l = Inr False) ls \<Longrightarrow> matching_lines matches ls = Inr []"
  by (induction ls) auto

lemma search_file_none:
  "no_match fs matches f \<Longrightarrow>
   \<exists>printed. search_file fs matches f pref = (printed, Inr pref)
     \<or> search_file fs matches f pref = (printed, Inr [])"
  by (auto simp: search_file_def no_match_def matching_lines_none
      split: option.splits fs_entry.splits)

lemma search_files_none:
  "list_all (no_match fs matches) files \<Longrightarrow>
   \<exists>printed result. search_files fs matches many files = (printed, Inr result) \<and> concat result = []"
proof (induction files)
  case Nil
  then show ?case by simp
next
  case (Cons f files)
  then obtain printed' result where
    r: "search_files fs matches many files = (printed', Inr result)" "concat result = []"
    by auto
  from Cons.prems have "no_match fs matches f" by simp
  from search_file_none [OF this, of "if many then f @ '':'' else []"]
  obtain printed where
    "search_file fs matches f (if many then f @ '':'' else [])
       = (printed, Inr (if many then f @ '':'' else []))
     \<or> search_file fs matches f (if many then f @ '':'' else []) = (printed, Inr [])"
    by blast
  then show ?case using r by (auto simp: Let_def)
qed

text \<open>
  C5. An unknown or absent hutch code raises \<^verbatim>\<open>ValueError\<close> behind the message of the
  invalid entry; an absent pattern raises \<^verbatim>\<open>ValueError\<close> for every hutch argument (behind
  the message "No regex pattern supplied" when the hutch code is valid: the hutch is
  checked first); and with a valid hutch code and a pattern, when no source has a
  matching line, the result is \<^verbatim>\<open>None\<close>: no exception and no list.
\<close>

theorem find_ioc_outcomes:
  "(hutch = None \<or> the hutch \<notin> set hutch_list \<longrightarrow>
      find_ioc fs glob_cfg re_search hutch patt
        = ([''Invalid entry. Please choose a valid hutch:'' @ newline # join '','' hutch_list],
           Inl ValueError))
   \<and> (patt = None \<longrightarrow> snd (find_ioc fs glob_cfg re_search hutch patt) = Inl ValueError)
   \<and> (hutch = Some h \<and> h \<in> set hutch_list \<and> patt = None \<longrightarrow>
        find_ioc fs glob_cfg re_search hutch patt
          = ([''No regex pattern supplied''], Inl ValueError))
   \<and> (hutch = Some h \<and> h \<in> set hutch_list \<and> patt = Some p
        \<and> list_all (no_match fs (re_search (''{.*'' @ p @ ''.*}''))) (cfg_paths glob_cfg h) \<longrightarrow>
        snd (find_ioc fs glob_cfg re_search hutch patt) = Inr None)"
proof (intro conjI impI)
  assume "hutch = None \<or> the hutch \<notin> set hutch_list"
  then show "find_ioc fs glob_cfg re_search hutch patt
        = ([''Invalid entry. Please choose a valid hutch:'' @ newline # join '','' hutch_list],
           Inl ValueError)"
    by (simp add: find_ioc_def)
next
  assume "patt = None"
  then show "snd (find_ioc fs glob_cfg re_search hutch patt) = Inl ValueError"
    by (simp add: find_ioc_def Let_def)
next
  assume "hutch = Some h \<and> h \<in> set hutch_list \<and> patt = None"
  then show "find_ioc fs glob_cfg re_search hutch patt
      = ([''No regex pattern supplied''], Inl ValueError)"
    by (simp add: find_ioc_def Let_def)
next
  assume a: "hutch = Some h \<and> h \<in> set hutch_list \<and> patt = Some p
        \<and> list_all (no_match fs (re_search (''{.*'' @ p @ ''.*}''))) (cfg_paths glob_cfg h)"
  then obtain printed result where
    "search_files fs (re_search (''{.*'' @ p @ ''.*}''))
       (length (cfg_paths glob_cfg h) \<noteq> 1) (cfg_paths glob_cfg h) = (printed, Inr result)"
    "concat result = []"
    using search_files_none by blast
  with a show "snd (find_ioc fs glob_cfg re_search hutch patt) = Inr None"
    by (simp add: find_ioc_def Let_def)
qed

theorem find_ioc_outcomes_witness:
  "snd (find_ioc one_config [xpp_cfg] re_search_braced (Some ''lcls'') (Some ''ioc''))
     = Inl ValueError
   \<and> snd (find_ioc one_config [xpp_cfg] re_search_braced None None) = Inl ValueError
   \<and> find_ioc one_config [xpp_cfg] re_search_braced (Some ''xpp'') None
       = ([''No regex pattern supplied''], Inl ValueError)
   \<and> snd (find_ioc one_config [xpp_cfg] re_search_braced (Some ''xpp'') (Some ''zzz'')) = Inr None"
proof -
  note t = find_ioc_outcomes [where fs = one_config and glob_cfg = "[xpp_cfg]"
      and re_search = re_search_braced]
  have 1: "snd (find_ioc one_config [xpp_cfg] re_search_braced (Some ''lcls'') (Some ''ioc''))
      = Inl ValueError"
    using t [where hutch = "Some ''lcls''" and patt = "Some ''ioc''"]
    by (simp add: hutch_list_def)
  have 2: "snd (find_ioc one_config [xpp_cfg] re_search_braced None None) = Inl ValueError"
    using t [where hutch = None and patt = None] by simp
  have 3: "find_ioc one_config [xpp_cfg] re_search_braced (Some ''xpp'') None
       = ([''No regex pattern supplied''], Inl ValueError)"
    using t [where hutch = "Some ''xpp''" and patt = None and h = "''xpp''"]
    by (simp add: hutch_list_def)
  have h: "list_all (no_match one_config (re_search_braced (''{.*'' @ ''zzz'' @ ''.*}'')))
      (cfg_paths [xpp_cfg] ''xpp'')"
    by code_simp
  have 4: "snd (find_ioc one_config [xpp_cfg] re_search_braced (Some ''xpp'') (Some ''zzz''))
      = Inr None"
    using t [where hutch = "Some ''xpp''" and patt = "Some ''zzz''" and h = "''xpp''"
        and p = "''zzz''"] h
    by (simp add: hutch_list_def)
  from 1 2 3 4 show ?thesis by blast
qed

section \<open>Properties of the command-script extractor\<close>
















lemma split_on_cons: "x \<notin> set a \<Longrightarrow> split_on x (a @ x # b) = a # split_on x b"
  by (induction a) auto


lemma prefix_append_hd:
  assumes "prefix p (xs @ r)" and "r = [] \<or> hd r \<notin> set (tl p)" and "xs \<noteq> []"
  shows "prefix p xs"
proof -
  from assms(1) have "prefix p xs \<or> (\<exists>us. p = xs @ us \<and> prefix us r)"
    by (simp add: prefix_append)
  then show ?thesis
  proof
    assume "\<exists>us. p = xs @ us \<and> prefix us r"
    then obtain us where us: "p = xs @ us" "prefix us r" by blast
    show ?thesis
    proof (cases us)
      case Nil
      with us show ?thesis by simp
    next
      case (Cons u us')
      with us(2) have "r \<noteq> []" "hd r = u" by (auto simp: prefix_def)
      moreover from Cons us(1) assms(3) have "u \<in> set (tl p)" by (cases xs) auto
      ultimately show ?thesis using assms(2) by simp
    qed
  qed
qed


















section \<open>Properties of the alias template expander\<close>

text \<open>
  C7. The claim: for every template line the wrapper with its internal whitespace is
  stripped, and the last field is the expanded alias. Line 418 removes blanks only: a
  tab inside a line stays and \<^verbatim>\<open>split()\<close> cuts the line in two there. The closing
  parenthesis is removed only in front of a newline (line 419): the last line of a file
  that does not end with a newline keeps it, and the last field of the claim's own
  example is then the alias followed by the parenthesis.
\<close>

theorem process_alias_template_keeps_tab_and_paren:
  "process_alias_template
       (parent_with_template (''alias($(RECORD),'' @ [CHR 0x09] @ ''$(ALIAS))'' @ [newline]))
       ''/parent'' ''R'' ''A''
     = ([], Inr (Some [[''R'', []], [''A'']]))
   \<and> process_alias_template (parent_with_template ''alias($(RECORD), $(RECORD).RBV, $(ALIAS).RBV)'')
       ''/parent'' ''LM1K2:MCS2:01:m1'' ''LM1K2:INJ_MP1_MR1''
     = ([], Inr (Some [[''LM1K2:MCS2:01:m1'', ''LM1K2:MCS2:01:m1.RBV'', ''LM1K2:INJ_MP1_MR1.RBV)'']]))"
  by code_simp

lemma join_Cons: "join sep (x # xs) = x @ concat (map (\<lambda>y. sep @ y) xs)"
  by (induction sep "x # xs" arbitrary: x xs rule: join.induct) auto

lemma pass_fields:
  assumes f: "\<And>f r. f \<in> S \<Longrightarrow> B r \<Longrightarrow> h (ft f @ r) = ft' f @ h r"
    and s: "\<And>f r. f \<in> S \<Longrightarrow> h (sep @ ft f @ r) = sep' @ h (ft f @ r)"
    and b: "\<And>f r. f \<in> S \<Longrightarrow> B (sep @ ft f @ r)"
    and r0: "B r0"
    and mem: "f0 \<in> S" "set fs \<subseteq> S"
  shows "h (ft f0 @ concat (map (\<lambda>y. sep @ y) (map ft fs)) @ r0)
           = ft' f0 @ concat (map (\<lambda>y. sep' @ y) (map ft' fs)) @ h r0"
  using mem
proof (induction fs arbitrary: f0)
  case Nil
  with f r0 show ?case by simp
next
  case (Cons f1 fs)
  let ?rest = "concat (map (\<lambda>y. sep @ y) (map ft fs)) @ r0"
  from Cons.prems have m: "f1 \<in> S" "set fs \<subseteq> S" by auto
  have "h (ft f0 @ sep @ ft f1 @ ?rest) = ft' f0 @ h (sep @ ft f1 @ ?rest)"
    using Cons.prems(1) b [OF m(1)] by (rule f)
  also have "h (sep @ ft f1 @ ?rest) = sep' @ h (ft f1 @ ?rest)"
    using m(1) by (rule s)
  also have "h (ft f1 @ ?rest) = ft' f1 @ concat (map (\<lambda>y. sep' @ y) (map ft' fs)) @ h r0"
    using m by (rule Cons.IH)
  finally show ?case by simp
qed

lemma pass_join:
  assumes f: "\<And>f r. f \<in> set fs \<Longrightarrow> B r \<Longrightarrow> h (ft f @ r) = ft' f @ h r"
    and s: "\<And>f r. f \<in> set fs \<Longrightarrow> h (sep @ ft f @ r) = sep' @ h (ft f @ r)"
    and b: "\<And>f r. f \<in> set fs \<Longrightarrow> B (sep @ ft f @ r)"
    and r0: "B r0"
    and ne: "fs \<noteq> []"
  shows "h (join sep (map ft fs) @ r0) = join sep' (map ft' fs) @ h r0"
proof -
  from ne obtain f0 fs' where fs: "fs = f0 # fs'" by (cases fs) auto
  have "h (ft f0 @ concat (map (\<lambda>y. sep @ y) (map ft fs')) @ r0)
      = ft' f0 @ concat (map (\<lambda>y. sep' @ y) (map ft' fs')) @ h r0"
    by (rule pass_fields [where S = "set fs" and B = B]) (use f s b r0 fs in auto)
  then show ?thesis by (simp add: fs join_Cons)
qed

lemma blank_is_space: "is_space (CHR '' '')"
  by (simp add: is_space_def)

lemma newline_is_space: "is_space newline"
  by (simp add: is_space_def newline_def)

lemma lit_char_simps:
  "lit_char c \<Longrightarrow> c \<noteq> CHR '' ''" "lit_char c \<Longrightarrow> c \<noteq> CHR ''(''" "lit_char c \<Longrightarrow> c \<noteq> CHR '')''"
  "lit_char c \<Longrightarrow> c \<noteq> CHR ''$''" "lit_char c \<Longrightarrow> c \<noteq> CHR '',''" "lit_char c \<Longrightarrow> c \<noteq> dquote"
  "lit_char c \<Longrightarrow> \<not> is_space c" "lit_char c \<Longrightarrow> c \<noteq> newline"
  using blank_is_space newline_is_space by (auto simp: lit_char_def)

lemma lit_not_in:
  assumes "list_all lit_char s"
  shows "CHR ''('' \<notin> set s" "CHR '')'' \<notin> set s" "CHR ''$'' \<notin> set s" "CHR '','' \<notin> set s"
    "dquote \<notin> set s" "CHR '' '' \<notin> set s"
proof -
  have h: "lit_char c" if "c \<in> set s" for c
    using assms that by (simp add: list_all_iff)
  show "CHR ''('' \<notin> set s" using h lit_char_simps(2) by blast
  show "CHR '')'' \<notin> set s" using h lit_char_simps(3) by blast
  show "CHR ''$'' \<notin> set s" using h lit_char_simps(4) by blast
  show "CHR '','' \<notin> set s" using h lit_char_simps(5) by blast
  show "dquote \<notin> set s" using h lit_char_simps(6) by blast
  show "CHR '' '' \<notin> set s" using h lit_char_simps(1) by blast
qed


lemma blanks_lit:
  assumes "list_all lit_char s" and "r = [] \<or> hd r \<notin> set ''lias(''"
  shows "sub_alias_blanks (s @ r) = s @ sub_alias_blanks r"
  using assms(1)
proof (induction s)
  case Nil
  show ?case by simp
next
  case (Cons c cs)
  from assms(2) have hr: "r = [] \<or> hd r \<notin> set (tl ''alias('')" by simp
  have "\<not> prefix ''alias('' ((c # cs) @ r)"
  proof
    assume "prefix ''alias('' ((c # cs) @ r)"
    then have "prefix ''alias('' (c # cs)"
      using hr by (rule prefix_append_hd) simp
    then have "CHR ''('' \<in> set (c # cs)" by (auto dest: set_mono_prefix)
    with Cons.prems show False using lit_not_in(1) by blast
  qed
  moreover from Cons.prems have "c \<noteq> CHR '' ''" by (simp add: lit_char_simps)
  moreover from Cons have "sub_alias_blanks (cs @ r) = cs @ sub_alias_blanks r" by simp
  ultimately show ?case by (simp del: Cons_prefix_Cons)
qed

lemma blanks_ph: "sub_alias_blanks (ph_text p @ r) = ph_text p @ sub_alias_blanks r"
  by (cases p) simp_all

lemma blanks_pieces:
  assumes "list_all (\<lambda>(p, s). list_all lit_char s) parts" and "list_all lit_char h"
    and "r = [] \<or> hd r \<notin> set ''lias(''"
  shows "sub_alias_blanks (pieces_text ph_text h parts @ r)
           = pieces_text ph_text h parts @ sub_alias_blanks r"
  using assms(1,2)
proof (induction parts arbitrary: h)
  case Nil
  with assms(3) show ?case by (simp add: pieces_text_def blanks_lit)
next
  case (Cons ps parts)
  obtain p s where ps: "ps = (p, s)" by (cases ps)
  let ?rest = "pieces_text ph_text s parts @ r"
  have "sub_alias_blanks (h @ ph_text p @ ?rest) = h @ sub_alias_blanks (ph_text p @ ?rest)"
    using Cons.prems(2) by (rule blanks_lit) (cases p; simp)
  also have "\<dots> = h @ ph_text p @ sub_alias_blanks ?rest"
    by (simp only: blanks_ph)
  also have "sub_alias_blanks ?rest = pieces_text ph_text s parts @ sub_alias_blanks r"
    using Cons.prems ps by (intro Cons.IH) auto
  finally show ?case by (simp add: pieces_text_def ps)
qed

lemma blanks_field_bare:
  assumes "field_ok f" and "r = [] \<or> hd r \<notin> set ''lias(''"
  shows "sub_alias_blanks (field_bare ph_text f @ r) = field_bare ph_text f @ sub_alias_blanks r"
proof -
  obtain n q h parts where f: "f = TField n q h parts" by (cases f)
  have dq: "sub_alias_blanks (dquote # x) = dquote # sub_alias_blanks x" for x
    by (simp add: dquote_def)
  show ?thesis
  proof (cases q)
    case True
    have "sub_alias_blanks (pieces_text ph_text h parts @ dquote # r)
        = pieces_text ph_text h parts @ sub_alias_blanks (dquote # r)"
      using assms(1) f by (intro blanks_pieces) (auto simp: dquote_def)
    with True show ?thesis by (simp add: f dq del: sub_alias_blanks.simps)
  next
    case False
    have "sub_alias_blanks (pieces_text ph_text h parts @ r)
        = pieces_text ph_text h parts @ sub_alias_blanks r"
      using assms f by (intro blanks_pieces) auto
    with False show ?thesis by (simp add: f del: sub_alias_blanks.simps)
  qed
qed

lemma dropWhile_replicate:
  "dropWhile (\<lambda>c. c = b) (replicate k b @ x) = dropWhile (\<lambda>c. c = b) x"
  by (induction k) auto

lemma blanks_run:
  assumes "x = [] \<or> hd x \<noteq> CHR '' ''"
  shows "sub_alias_blanks (replicate n (CHR '' '') @ x) = sub_alias_blanks x"
proof (cases n)
  case 0
  then show ?thesis by simp
next
  case (Suc k)
  from assms have "dropWhile (\<lambda>c. c = CHR '' '') x = x" by (cases x) auto
  with Suc show ?thesis by (simp add: dropWhile_replicate)
qed

lemma hd_field_bare:
  assumes "field_ok f" and "r \<noteq> []" and "\<not> is_space (hd r)"
  shows "field_bare ph_text f @ r \<noteq> [] \<and> \<not> is_space (hd (field_bare ph_text f @ r))"
proof -
  obtain n q h parts where f: "f = TField n q h parts" by (cases f)
  have sp: "\<not> is_space dquote" "\<not> is_space (CHR ''$'')" by (simp_all add: is_space_def dquote_def)
  show ?thesis
  proof (cases q)
    case True
    with sp show ?thesis by (simp add: f)
  next
    case False
    show ?thesis
    proof (cases h)
      case (Cons c cs)
      with assms(1) f have "\<not> is_space c" by (simp add: lit_char_simps)
      with False Cons show ?thesis by (simp add: f pieces_text_def)
    next
      case Nil
      show ?thesis
      proof (cases parts)
        case Nil
        with \<open>h = []\<close> False assms show ?thesis by (simp add: f pieces_text_def)
      next
        case (Cons ps parts')
        obtain p s where "ps = (p, s)" by (cases ps)
        with Cons \<open>h = []\<close> False sp show ?thesis by (cases p) (simp_all add: f pieces_text_def)
      qed
    qed
  qed
qed

lemma blanks_field:
  assumes "field_ok f" and "after_field r"
  shows "sub_alias_blanks (field_text f @ r) = field_bare ph_text f @ sub_alias_blanks r"
proof -
  obtain n q h parts where f: "f = TField n q h parts" by (cases f)
  from assms(2) have ns: "r \<noteq> []" "\<not> is_space (hd r)"
    by (auto simp: after_field_def is_space_def)
  with assms(1) have "field_bare ph_text f @ r \<noteq> [] \<and> \<not> is_space (hd (field_bare ph_text f @ r))"
    by (rule hd_field_bare)
  then have "hd (field_bare ph_text f @ r) \<noteq> CHR '' ''" using blank_is_space by auto
  then have "sub_alias_blanks (replicate n (CHR '' '') @ field_bare ph_text f @ r)
      = sub_alias_blanks (field_bare ph_text f @ r)"
    by (intro blanks_run) simp
  moreover from assms have "sub_alias_blanks (field_bare ph_text f @ r)
      = field_bare ph_text f @ sub_alias_blanks r"
    by (intro blanks_field_bare) (auto simp: after_field_def)
  ultimately show ?thesis by (simp add: f)
qed

lemma blanks_line:
  assumes "line_ok fs"
  shows "sub_alias_blanks (template_line fs @ rest) = line1 fs @ sub_alias_blanks rest"
proof -
  from assms have ne: "fs \<noteq> []" and ok: "\<And>f. f \<in> set fs \<Longrightarrow> field_ok f"
    by (auto simp: line_ok_def list_all_iff)
  let ?r0 = "'')'' @ newline # rest"
  have "sub_alias_blanks (join '','' (map field_text fs) @ ?r0)
      = join '','' (map (field_bare ph_text) fs) @ sub_alias_blanks ?r0"
  proof (rule pass_join [where B = after_field])
    show "sub_alias_blanks (field_text f @ r) = field_bare ph_text f @ sub_alias_blanks r"
      if "f \<in> set fs" "after_field r" for f r
      using that ok by (intro blanks_field) auto
    show "sub_alias_blanks ('','' @ field_text f @ r) = '','' @ sub_alias_blanks (field_text f @ r)"
      for f r by simp
    show "after_field ('','' @ field_text f @ r)" for f r by (simp add: after_field_def)
    show "after_field ?r0" by (simp add: after_field_def)
    show "fs \<noteq> []" by fact
  qed
  moreover have "sub_alias_blanks ?r0 = '')'' @ newline # sub_alias_blanks rest"
    by (simp add: newline_def)
  ultimately show ?thesis by (simp add: template_line_def line1_def)
qed

lemma blanks_text:
  "list_all line_ok lines \<Longrightarrow> sub_alias_blanks (template_text lines) = concat (map line1 lines)"
  by (induction lines) (auto simp: template_text_def blanks_line)

lemma pass_pieces:
  assumes lit: "\<And>s r. list_all lit_char s \<Longrightarrow> Bl r \<Longrightarrow> H (s @ r) = s @ H r"
    and ph: "\<And>p r. Bp r \<Longrightarrow> H (g p @ r) = g' p @ H r"
    and Bl_ph: "\<And>p r. Bl (g p @ r)"
    and Bp_lit: "\<And>s x. list_all lit_char s \<Longrightarrow> Bp x \<Longrightarrow> Bp (s @ x)"
    and Bp_ph: "\<And>p r. Bp (g p @ r)"
    and r: "Bl r" "Bp r"
    and ok: "list_all lit_char h" "list_all (\<lambda>(p, s). list_all lit_char s) parts"
  shows "H (pieces_text g h parts @ r) = pieces_text g' h parts @ H r"
  using ok
proof (induction parts arbitrary: h)
  case Nil
  with lit r show ?case by (simp add: pieces_text_def)
next
  case (Cons ps parts)
  obtain p s where ps: "ps = (p, s)" by (cases ps)
  with Cons.prems have s: "list_all lit_char s" "list_all (\<lambda>(p, s). list_all lit_char s) parts"
    by auto
  let ?rest = "pieces_text g s parts @ r"
  have bp: "Bp ?rest"
  proof (cases parts)
    case Nil
    with s r Bp_lit show ?thesis by (simp add: pieces_text_def)
  next
    case (Cons ps' parts')
    obtain p' s' where "ps' = (p', s')" by (cases ps')
    with Cons s Bp_lit [OF s(1) Bp_ph] show ?thesis by (simp add: pieces_text_def)
  qed
  have "H (h @ g p @ ?rest) = h @ H (g p @ ?rest)"
    using Cons.prems(1) Bl_ph by (rule lit)
  also have "H (g p @ ?rest) = g' p @ H ?rest"
    using bp by (rule ph)
  also have "H ?rest = pieces_text g' s parts @ H r"
    using s by (rule Cons.IH)
  finally show ?case by (simp add: pieces_text_def ps)
qed

lemma pass_field_bare:
  assumes pieces: "\<And>h parts r. list_all lit_char h \<Longrightarrow> list_all (\<lambda>(p, s). list_all lit_char s) parts
      \<Longrightarrow> Bf r \<Longrightarrow> H (pieces_text g h parts @ r) = pieces_text g' h parts @ H r"
    and dq: "\<And>r. H (dquote # r) = dquote # H r"
    and Bf_dq: "\<And>r. Bf (dquote # r)"
    and r: "Bf r"
    and ok: "field_ok f"
  shows "H (field_bare g f @ r) = field_bare g' f @ H r"
proof -
  obtain n q h parts where f: "f = TField n q h parts" by (cases f)
  with ok have o: "list_all lit_char h" "list_all (\<lambda>(p, s). list_all lit_char s) parts" by auto
  show ?thesis
  proof (cases q)
    case True
    from o Bf_dq have "H (pieces_text g h parts @ dquote # r) = pieces_text g' h parts @ H (dquote # r)"
      by (rule pieces)
    with True show ?thesis by (simp add: f dq)
  next
    case False
    from o r have "H (pieces_text g h parts @ r) = pieces_text g' h parts @ H r"
      by (rule pieces)
    with False show ?thesis by (simp add: f)
  qed
qed


lemma paren_other: "c \<noteq> CHR '')'' \<Longrightarrow> sub_paren_newline (c # r) = c # sub_paren_newline r"
  by simp

lemma paren_keep:
  "no_space_first r \<Longrightarrow> sub_paren_newline (CHR '')'' # r) = CHR '')'' # sub_paren_newline r"
  by (cases r) (auto simp: no_space_first_def)

lemma paren_lit:
  "list_all lit_char s \<Longrightarrow> sub_paren_newline (s @ r) = s @ sub_paren_newline r"
  by (induction s) (simp_all add: lit_char_simps)

lemma paren_ph:
  "no_space_first r \<Longrightarrow> sub_paren_newline (ph_text p @ r) = ph_text p @ sub_paren_newline r"
  by (cases p) (simp_all add: paren_keep del: sub_paren_newline.simps add: paren_other)

lemma no_space_first_lit:
  "list_all lit_char s \<Longrightarrow> no_space_first x \<Longrightarrow> no_space_first (s @ x)"
  by (cases s) (auto simp: no_space_first_def lit_char_simps)

lemma no_space_first_ph: "no_space_first (ph_text p @ r)"
  by (cases p) (simp_all add: no_space_first_def is_space_def)

lemma paren_pieces:
  assumes "list_all lit_char h" "list_all (\<lambda>(p, s). list_all lit_char s) parts" "no_space_first r"
  shows "sub_paren_newline (pieces_text ph_text h parts @ r)
           = pieces_text ph_text h parts @ sub_paren_newline r"
  by (rule pass_pieces [where Bl = "\<lambda>_. True" and Bp = no_space_first])
    (use assms paren_lit paren_ph no_space_first_lit no_space_first_ph in auto)

lemma paren_dquote: "sub_paren_newline (dquote # r) = dquote # sub_paren_newline r"
  by (simp add: dquote_def)

lemma paren_field:
  assumes "field_ok f" "no_space_first r"
  shows "sub_paren_newline (field_bare ph_text f @ r) = field_bare ph_text f @ sub_paren_newline r"
  by (rule pass_field_bare [where Bf = no_space_first])
    (use assms paren_pieces paren_dquote in \<open>auto simp: no_space_first_def is_space_def dquote_def\<close>)

lemma paren_close:
  assumes "no_space_first rest"
  shows "sub_paren_newline (CHR '')'' # newline # rest) = newline # sub_paren_newline rest"
proof -
  from assms have "takeWhile is_space rest = []" by (cases rest) (auto simp: no_space_first_def)
  then show ?thesis by (simp add: newline_is_space)
qed

lemma paren_line:
  assumes "line_ok fs" "no_space_first rest"
  shows "sub_paren_newline (line1 fs @ rest) = line2 ph_text fs @ sub_paren_newline rest"
proof -
  from assms have ne: "fs \<noteq> []" and ok: "\<And>f. f \<in> set fs \<Longrightarrow> field_ok f"
    by (auto simp: line_ok_def list_all_iff)
  let ?r0 = "CHR '')'' # newline # rest"
  have "sub_paren_newline (join '','' (map (field_bare ph_text) fs) @ ?r0)
      = join '','' (map (field_bare ph_text) fs) @ sub_paren_newline ?r0"
  proof (rule pass_join [where B = no_space_first])
    show "sub_paren_newline (field_bare ph_text f @ r) = field_bare ph_text f @ sub_paren_newline r"
      if "f \<in> set fs" "no_space_first r" for f r
      using that ok by (intro paren_field) auto
    show "sub_paren_newline ('','' @ field_bare ph_text f @ r)
        = '','' @ sub_paren_newline (field_bare ph_text f @ r)"
      for f r by simp
    show "no_space_first ('','' @ field_bare ph_text f @ r)" for f r
      by (simp add: no_space_first_def is_space_def)
    show "no_space_first ?r0" by (simp add: no_space_first_def is_space_def)
    show "fs \<noteq> []" by fact
  qed
  with assms(2) show ?thesis by (simp add: line1_def line2_def paren_close del: sub_paren_newline.simps)
qed

lemma no_space_first_line1:
  assumes "line_ok fs"
  shows "no_space_first (line1 fs @ x)"
proof -
  from assms obtain f fs' where fs: "fs = f # fs'" and ok: "field_ok f"
    by (cases fs) (auto simp: line_ok_def)
  let ?r = "concat (map (\<lambda>y. '','' @ y) (map (field_bare ph_text) fs')) @ '')'' @ newline # x"
  have "?r \<noteq> [] \<and> \<not> is_space (hd ?r)"
    by (cases fs') (auto simp: is_space_def)
  with ok have "field_bare ph_text f @ ?r \<noteq> [] \<and> \<not> is_space (hd (field_bare ph_text f @ ?r))"
    by (intro hd_field_bare) auto
  then show ?thesis by (simp add: line1_def fs join_Cons no_space_first_def)
qed

lemma paren_text:
  "list_all line_ok lines \<Longrightarrow>
   sub_paren_newline (concat (map line1 lines)) = concat (map (line2 ph_text) lines)"
proof (induction lines)
  case Nil
  show ?case by simp
next
  case (Cons l ls)
  have "no_space_first (concat (map line1 ls))"
  proof (cases ls)
    case Nil
    then show ?thesis by (simp add: no_space_first_def)
  next
    case (Cons l' ls')
    with Cons.prems have "line_ok l'" by simp
    then have "no_space_first (line1 l' @ concat (map line1 ls'))" by (rule no_space_first_line1)
    with Cons show ?thesis by simp
  qed
  with Cons show ?case by (simp add: paren_line)
qed

lemma replace_other:
  "c \<noteq> CHR ''$'' \<Longrightarrow>
   replace_str (CHR ''$'' # P) new (c # r) = c # replace_str (CHR ''$'' # P) new r"
  by simp

lemma replace_no_dollar:
  "CHR ''$'' \<notin> set s \<Longrightarrow>
   replace_str (CHR ''$'' # P) new (s @ r) = s @ replace_str (CHR ''$'' # P) new r"
  by (induction s) auto

lemma replace_hit: "replace_str (c # P) new (c # P @ r) = new @ replace_str (c # P) new r"
  by simp

lemma replace_pieces:
  assumes ph: "\<And>p r. replace_str (CHR ''$'' # P) new (g p @ r) = g' p @ replace_str (CHR ''$'' # P) new r"
    and ok: "list_all lit_char h" "list_all (\<lambda>(p, s). list_all lit_char s) parts"
  shows "replace_str (CHR ''$'' # P) new (pieces_text g h parts @ r)
           = pieces_text g' h parts @ replace_str (CHR ''$'' # P) new r"
  by (rule pass_pieces [where Bl = "\<lambda>_. True" and Bp = "\<lambda>_. True"])
    (use ph ok lit_not_in(3) in \<open>auto simp: replace_no_dollar simp del: replace_str.simps\<close>)

lemma replace_field:
  assumes ph: "\<And>p r. replace_str (CHR ''$'' # P) new (g p @ r) = g' p @ replace_str (CHR ''$'' # P) new r"
    and ok: "field_ok f"
  shows "replace_str (CHR ''$'' # P) new (field_bare g f @ r)
           = field_bare g' f @ replace_str (CHR ''$'' # P) new r"
proof (rule pass_field_bare [where Bf = "\<lambda>_. True"])
  show "replace_str (CHR ''$'' # P) new (pieces_text g h parts @ r)
      = pieces_text g' h parts @ replace_str (CHR ''$'' # P) new r"
    if "list_all lit_char h" "list_all (\<lambda>(p, s). list_all lit_char s) parts" for h parts r
    using ph that by (rule replace_pieces)
  show "replace_str (CHR ''$'' # P) new (dquote # r) = dquote # replace_str (CHR ''$'' # P) new r"
    for r by (simp add: dquote_def)
qed (use ok in auto)

lemma replace_line:
  assumes ph: "\<And>p r. replace_str (CHR ''$'' # P) new (g p @ r) = g' p @ replace_str (CHR ''$'' # P) new r"
    and ok: "line_ok fs"
  shows "replace_str (CHR ''$'' # P) new (line2 g fs @ rest)
           = line2 g' fs @ replace_str (CHR ''$'' # P) new rest"
proof -
  from ok have ne: "fs \<noteq> []" and fok: "\<And>f. f \<in> set fs \<Longrightarrow> field_ok f"
    by (auto simp: line_ok_def list_all_iff)
  let ?H = "replace_str (CHR ''$'' # P) new"
  have "?H (join '','' (map (field_bare g) fs) @ newline # rest)
      = join '','' (map (field_bare g') fs) @ ?H (newline # rest)"
  proof (rule pass_join [where B = "\<lambda>_. True"])
    show "?H (field_bare g f @ r) = field_bare g' f @ ?H r" if "f \<in> set fs" for f r
      using ph fok [OF that] by (rule replace_field)
    show "?H ('','' @ field_bare g f @ r) = '','' @ ?H (field_bare g f @ r)" for f r
      by simp
    show "fs \<noteq> []" by fact
  qed auto
  then show ?thesis by (simp add: line2_def newline_def)
qed

lemma replace_text:
  assumes ph: "\<And>p r. replace_str (CHR ''$'' # P) new (g p @ r) = g' p @ replace_str (CHR ''$'' # P) new r"
  shows "list_all line_ok lines \<Longrightarrow>
    replace_str (CHR ''$'' # P) new (concat (map (line2 g) lines)) = concat (map (line2 g') lines)"
  by (induction lines) (auto simp: replace_line [OF ph] simp del: replace_str.simps(2))

lemma pass3_ph:
  "replace_str ''$(RECORD)'' v (ph_text p @ r)
     = expand_ph v ''$(ALIAS)'' p @ replace_str ''$(RECORD)'' v r"
  by (cases p) simp_all

lemma pass4_ph:
  assumes "CHR ''$'' \<notin> set v"
  shows "replace_str ''$(ALIAS)'' a (expand_ph v ''$(ALIAS)'' p @ r)
     = expand_ph v a p @ replace_str ''$(ALIAS)'' a r"
proof (cases p)
  case Record_ph
  with assms show ?thesis by (simp add: replace_no_dollar del: replace_str.simps)
next
  case Alias_ph
  then show ?thesis by simp
qed

lemma expand_repl_plain: "backslash \<notin> set v \<Longrightarrow> expand_repl m v = Inr v"
  by (induction v) (auto simp: cons_char_def)


lemma split_ws_line:
  assumes "t \<noteq> []" and "list_all (\<lambda>c. \<not> is_space c) t"
  shows "split_ws (t @ newline # rest) = t # split_ws rest"
proof -
  from assms obtain c t' where t: "t = c # t'" by (cases t) auto
  with assms(2) have c: "\<not> is_space c" and t': "\<forall>x\<in>set t'. \<not> is_space x"
    by (auto simp: list_all_iff)
  from t' have "takeWhile (\<lambda>x. \<not> is_space x) (t' @ newline # rest) = t'"
    by (simp add: takeWhile_tail newline_is_space)
  moreover from t' have "dropWhile (\<lambda>x. \<not> is_space x) (t' @ newline # rest) = newline # rest"
    by (simp add: dropWhile_append3 newline_is_space)
  ultimately show ?thesis using c by (simp add: t newline_is_space)
qed

lemma replace_single_empty: "replace_str [c] [] s = filter (\<lambda>x. x \<noteq> c) s"
  by (induction s) auto

lemma split_join:
  assumes "\<forall>y\<in>set (y0 # ys). CHR '','' \<notin> set y"
  shows "split_on (CHR '','') (join '','' (y0 # ys)) = y0 # ys"
  using assms
proof (induction ys arbitrary: y0)
  case Nil
  then show ?case by (simp add: split_on_single)
next
  case (Cons y ys)
  then have "split_on (CHR '','') (join '','' (y # ys)) = y # ys" by simp
  with Cons.prems show ?case by (simp add: split_on_cons)
qed

lemma fine_lit: "lit_char c \<Longrightarrow> fine_char c"
  by (simp add: lit_char_def fine_char_def)

lemma fine_value: "value_char c \<Longrightarrow> fine_char c"
  by (simp add: value_char_def fine_char_def)

lemma fine_pieces:
  assumes "value_ok v" "value_ok a"
    and "list_all lit_char h" "list_all (\<lambda>(p, s). list_all lit_char s) parts"
  shows "list_all fine_char (pieces_text (expand_ph v a) h parts)"
proof -
  have ph: "list_all fine_char (expand_ph v a p)" for p
    using assms(1,2) fine_value by (cases p) (auto simp: value_ok_def list_all_iff)
  have "list_all fine_char (concat (map (\<lambda>(p, s). expand_ph v a p @ s) parts))"
    using assms(4)
  proof (induction parts)
    case Nil
    show ?case by simp
  next
    case (Cons ps parts)
    obtain p s where "ps = (p, s)" by (cases ps)
    with Cons ph [of p] fine_lit show ?case by (auto simp: list_all_iff)
  qed
  with assms(3) fine_lit show ?thesis by (auto simp: pieces_text_def list_all_iff)
qed

lemma filter_fine: "list_all fine_char s \<Longrightarrow> filter (\<lambda>x. x \<noteq> dquote) s = s"
  by (induction s) (auto simp: fine_char_def)

lemma filter_field:
  assumes "value_ok v" "value_ok a" "field_ok f"
  shows "filter (\<lambda>x. x \<noteq> dquote) (field_bare (expand_ph v a) f) = expand_field v a f"
proof -
  obtain n q h parts where f: "f = TField n q h parts" by (cases f)
  with assms have "list_all fine_char (pieces_text (expand_ph v a) h parts)"
    by (intro fine_pieces) auto
  then have "filter (\<lambda>x. x \<noteq> dquote) (pieces_text (expand_ph v a) h parts)
      = pieces_text (expand_ph v a) h parts"
    by (rule filter_fine)
  then show ?thesis by (simp add: f)
qed

lemma fine_expand_field:
  assumes "value_ok v" "value_ok a" "field_ok f"
  shows "list_all fine_char (expand_field v a f)"
proof -
  obtain n q h parts where f: "f = TField n q h parts" by (cases f)
  with assms show ?thesis by (simp add: fine_pieces)
qed

lemma no_space_field:
  assumes "value_ok v" "value_ok a" "field_ok f"
  shows "list_all (\<lambda>c. \<not> is_space c) (field_bare (expand_ph v a) f)"
proof -
  obtain n q h parts where f: "f = TField n q h parts" by (cases f)
  with assms have "list_all fine_char (pieces_text (expand_ph v a) h parts)"
    by (intro fine_pieces) auto
  then have "list_all (\<lambda>c. \<not> is_space c) (pieces_text (expand_ph v a) h parts)"
    by (auto simp: list_all_iff fine_char_def)
  then show ?thesis by (simp add: f is_space_def dquote_def)
qed

lemma filter_join:
  "filter P sep = sep \<Longrightarrow> filter P (join sep xs) = join sep (map (filter P) xs)"
  by (induction sep xs rule: join.induct) auto

lemma list_all_join:
  "list_all Q sep \<Longrightarrow> list_all (list_all Q) xs \<Longrightarrow> list_all Q (join sep xs)"
  by (induction sep xs rule: join.induct) auto

lemma token_fields:
  assumes "value_ok v" "value_ok a" "line_ok fs"
  shows "split_on (CHR '','') (replace_str [dquote] [] (fields_text v a fs)) = map (expand_field v a) fs"
proof -
  from assms(3) obtain f0 fs' where fs: "fs = f0 # fs'" by (cases fs) (auto simp: line_ok_def)
  from assms(3) have ok: "\<And>f. f \<in> set fs \<Longrightarrow> field_ok f" by (auto simp: line_ok_def list_all_iff)
  have "filter (\<lambda>x. x \<noteq> dquote) (fields_text v a fs)
      = join '','' (map (filter (\<lambda>x. x \<noteq> dquote)) (map (field_bare (expand_ph v a)) fs))"
    unfolding fields_text_def by (rule filter_join) (simp add: dquote_def)
  also have "map (filter (\<lambda>x. x \<noteq> dquote)) (map (field_bare (expand_ph v a)) fs)
      = map (expand_field v a) fs"
    using assms(1,2) ok by (simp add: filter_field)
  finally have "replace_str [dquote] [] (fields_text v a fs) = join '','' (map (expand_field v a) fs)"
    by (simp add: replace_single_empty)
  moreover have "\<forall>y\<in>set (map (expand_field v a) fs). CHR '','' \<notin> set y"
  proof
    fix y assume "y \<in> set (map (expand_field v a) fs)"
    then obtain f where "f \<in> set fs" "y = expand_field v a f" by auto
    with assms(1,2) ok have "list_all fine_char y" by (simp add: fine_expand_field)
    then show "CHR '','' \<notin> set y" by (auto simp: list_all_iff fine_char_def)
  qed
  ultimately show ?thesis using split_join [of "expand_field v a f0" "map (expand_field v a) fs'"]
    by (simp add: fs)
qed

lemma token_no_space:
  assumes "value_ok v" "value_ok a" "line_ok fs"
  shows "fields_text v a fs \<noteq> []" "list_all (\<lambda>c. \<not> is_space c) (fields_text v a fs)"
proof -
  from assms(3) obtain f0 f1 fs' where fs: "fs = f0 # f1 # fs'"
    by (cases fs; cases "tl fs") (auto simp: line_ok_def)
  then show "fields_text v a fs \<noteq> []" by (simp add: fields_text_def)
  from assms(3) have ok: "\<And>f. f \<in> set fs \<Longrightarrow> field_ok f" by (auto simp: line_ok_def list_all_iff)
  have "list_all (\<lambda>c. \<not> is_space c) (field_bare (expand_ph v a) f)" if "f \<in> set fs" for f
    using assms(1,2) ok [OF that] by (rule no_space_field)
  then have "list_all (list_all (\<lambda>c. \<not> is_space c)) (map (field_bare (expand_ph v a)) fs)"
    by (simp add: list_all_iff)
  then show "list_all (\<lambda>c. \<not> is_space c) (fields_text v a fs)"
    unfolding fields_text_def by (intro list_all_join) (simp_all add: is_space_def)
qed

lemma split_ws_text:
  assumes "value_ok v" "value_ok a"
  shows "list_all line_ok lines \<Longrightarrow>
    split_ws (concat (map (line2 (expand_ph v a)) lines)) = map (fields_text v a) lines"
proof (induction lines)
  case Nil
  show ?case by simp
next
  case (Cons l ls)
  then have l: "line_ok l" by simp
  have "split_ws (fields_text v a l @ newline # concat (map (line2 (expand_ph v a)) ls))
      = fields_text v a l # split_ws (concat (map (line2 (expand_ph v a)) ls))"
    using token_no_space [OF assms l] by (rule split_ws_line)
  moreover have "concat (map (line2 (expand_ph v a)) (l # ls))
      = fields_text v a l @ newline # concat (map (line2 (expand_ph v a)) ls)"
    by (simp add: line2_def fields_text_def)
  moreover from Cons have "split_ws (concat (map (line2 (expand_ph v a)) ls)) = map (fields_text v a) ls"
    by simp
  ultimately show ?case by simp
qed

text \<open>
  C7, amended: for a template whose lines are macro calls of two fields or more, each
  with its newline, with blanks as the only whitespace inside a line, and for record
  and alias values without whitespace, comma, double quote, dollar sign or backslash,
  \<^verbatim>\<open>process_alias_template\<close> returns for every line the sequence of its fields with the
  record in place of every \<^verbatim>\<open>$(RECORD)\<close> and the alias in place of every \<^verbatim>\<open>$(ALIAS)\<close>.
  The witness holds the line of the claim.
\<close>

theorem process_alias_template_expands:
  assumes "fs (parent_release @ ''/db/alias.db'') = Some (File (template_text lines))"
    and "list_all line_ok lines"
    and "value_ok record_name" and "value_ok alias_name"
  shows "process_alias_template fs parent_release record_name alias_name
           = ([], Inr (Some (map (map (expand_field record_name alias_name)) lines)))"
proof -
  let ?v = record_name and ?a = alias_name
  from assms(3,4) have nb: "backslash \<notin> set ?v" "backslash \<notin> set ?a" and nd: "CHR ''$'' \<notin> set ?v"
    by (auto simp: value_ok_def value_char_def list_all_iff)
  have t1: "sub_alias_blanks (template_text lines) = concat (map line1 lines)"
    using assms(2) by (rule blanks_text)
  have t2: "sub_paren_newline (concat (map line1 lines)) = concat (map (line2 ph_text) lines)"
    using assms(2) by (rule paren_text)
  have t3: "replace_str ''$(RECORD)'' ?v (concat (map (line2 ph_text) lines))
      = concat (map (line2 (expand_ph ?v ''$(ALIAS)'')) lines)"
    using assms(2) by (intro replace_text pass3_ph)
  have t4: "replace_str ''$(ALIAS)'' ?a (concat (map (line2 (expand_ph ?v ''$(ALIAS)'')) lines))
      = concat (map (line2 (expand_ph ?v ?a)) lines)"
    using assms(2) nd by (intro replace_text pass4_ph)
  have t5: "split_ws (concat (map (line2 (expand_ph ?v ?a)) lines)) = map (fields_text ?v ?a) lines"
    using assms(3,4,2) by (rule split_ws_text)
  have t6: "split_on (CHR '','') (replace_str [dquote] [] (fields_text ?v ?a l)) = map (expand_field ?v ?a) l"
    if "l \<in> set lines" for l
    using assms(3,4) that assms(2) by (intro token_fields) (auto simp: list_all_iff)
  from nb have e: "expand_repl m ?v = Inr ?v" "expand_repl m ?a = Inr ?a" for m
    by (simp_all add: expand_repl_plain)
  show ?thesis
    by (simp add: process_alias_template_def assms(1) re_sub_literal_def e template_fields_def
        t1 t2 t3 t4 t5 t6 del: replace_str.simps)
qed

theorem process_alias_template_expands_witness:
  "template_text example_template
     = ''alias($(RECORD), $(RECORD).RBV, $(ALIAS).RBV)'' @ [newline]
       @ ''alias(\"$(RECORD).VAL\",\"PRE:$(ALIAS).VAL\")'' @ [newline]
   \<and> list_all line_ok example_template
   \<and> value_ok ''LM1K2:MCS2:01:m1'' \<and> value_ok ''LM1K2:INJ_MP1_MR1''
   \<and> process_alias_template (parent_with_template (template_text example_template))
         ''/parent'' ''LM1K2:MCS2:01:m1'' ''LM1K2:INJ_MP1_MR1''
       = ([], Inr (Some [[''LM1K2:MCS2:01:m1'', ''LM1K2:MCS2:01:m1.RBV'', ''LM1K2:INJ_MP1_MR1.RBV''],
                         [''LM1K2:MCS2:01:m1.VAL'', ''PRE:LM1K2:INJ_MP1_MR1.VAL'']]))"
proof -
  have h0: "template_text example_template
     = ''alias($(RECORD), $(RECORD).RBV, $(ALIAS).RBV)'' @ [newline]
       @ ''alias(\"$(RECORD).VAL\",\"PRE:$(ALIAS).VAL\")'' @ [newline]"
    by code_simp
  have h1: "parent_with_template (template_text example_template) (''/parent'' @ ''/db/alias.db'')
      = Some (File (template_text example_template))"
    by (simp add: parent_with_template_def)
  have h2: "list_all line_ok example_template" by code_simp
  have h3: "value_ok ''LM1K2:MCS2:01:m1''" by code_simp
  have h4: "value_ok ''LM1K2:INJ_MP1_MR1''" by code_simp
  have e: "map (map (expand_field ''LM1K2:MCS2:01:m1'' ''LM1K2:INJ_MP1_MR1'')) example_template
      = [[''LM1K2:MCS2:01:m1'', ''LM1K2:MCS2:01:m1.RBV'', ''LM1K2:INJ_MP1_MR1.RBV''],
         [''LM1K2:MCS2:01:m1.VAL'', ''PRE:LM1K2:INJ_MP1_MR1.VAL'']]"
    by code_simp
  from process_alias_template_expands [where fs = "parent_with_template (template_text example_template)"
      and parent_release = "''/parent''", OF h1 h2 h3 h4] h0 h2 h3 h4 e
  show ?thesis by simp
qed

end
